theory Spec2Isabelle
  imports Complex_Main
begin

section \<open>Faults\<close>

text \<open>
  The Python faults that the modelled cells can raise.  A function that can raise
  returns \<open>py_error + 'a\<close>, with \<open>Inl\<close> carrying the fault to the caller.
\<close>

datatype py_error = ZeroDivisionError | ValueError

definition py_div :: "real \<Rightarrow> real \<Rightarrow> py_error + real" where
  \<comment> \<open>Python's \<open>a / b\<close> on numbers: a zero divisor raises.\<close>
  "py_div a b = (if b = 0 then Inl ZeroDivisionError else Inr (a / b))"

section \<open>The formula parser\<close>

text \<open>
  \<^verbatim>\<open>
  def get_stoich(AlCu_formula):
      m = re.match(r"Al([0-9]*)Cu([0-9]*)", AlCu_formula)
      if m is None:
          return (0, 0)

      n_Al = float(m.group(1)) if len(m.group(1)) > 0 else 1
      n_Cu = float(m.group(2)) if len(m.group(2)) > 0 else 1
      return (n_Al, n_Cu)
  \<close>
\<close>

definition is_digit :: "char \<Rightarrow> bool" where
  \<comment> \<open>The character class \<open>[0-9]\<close>: the code points 48 to 57.\<close>
  "is_digit c = (48 \<le> (of_char c :: nat) \<and> (of_char c :: nat) \<le> 57)"

fun strip_prefix :: "string \<Rightarrow> string \<Rightarrow> string option" where
  "strip_prefix [] s = Some s"
| "strip_prefix (p # ps) [] = None"
| "strip_prefix (p # ps) (c # cs) = (if p = c then strip_prefix ps cs else None)"

definition re_match_AlCu :: "string \<Rightarrow> (string \<times> string) option" where
  \<comment> \<open>\<open>re.match(r"Al([0-9]*)Cu([0-9]*)", s)\<close>: anchored at the start of \<open>s\<close>, not at its
      end; the result is the two groups, or \<open>None\<close>.  Both stars are greedy.  The first
      one cannot give a digit back, since the literal \<open>C\<close> that follows is no digit, so
      the longest run of digits is the only candidate for group 1.\<close>
  "re_match_AlCu s =
     (case strip_prefix ''Al'' s of
        None \<Rightarrow> None
      | Some r1 \<Rightarrow>
          (case strip_prefix ''Cu'' (dropWhile is_digit r1) of
             None \<Rightarrow> None
           | Some r2 \<Rightarrow> Some (takeWhile is_digit r1, takeWhile is_digit r2)))"

definition digit_val :: "char \<Rightarrow> nat" where
  "digit_val c = of_char c - 48"

definition decimal_val :: "string \<Rightarrow> nat" where
  "decimal_val s = foldl (\<lambda>a c. 10 * a + digit_val c) 0 s"

definition float_py :: "string \<Rightarrow> py_error + real" where
  \<comment> \<open>\<open>float(s)\<close> on the strings that reach it here, the regex groups: a non-empty run
      of decimal digits is its value, read as a real number; the empty string raises
      ValueError.  Other literals never reach it, and are given ValueError as well.\<close>
  "float_py s =
     (if s \<noteq> [] \<and> list_all is_digit s then Inr (real (decimal_val s)) else Inl ValueError)"

definition get_stoich :: "string \<Rightarrow> py_error + (real \<times> real)" where
  "get_stoich AlCu_formula =
     (case re_match_AlCu AlCu_formula of
        None \<Rightarrow> Inr (0, 0)
      | Some (g1, g2) \<Rightarrow>
          (case (if length g1 > 0 then float_py g1 else Inr 1) of
             Inl e \<Rightarrow> Inl e
           | Inr n_Al \<Rightarrow>
               (case (if length g2 > 0 then float_py g2 else Inr 1) of
                  Inl e \<Rightarrow> Inl e
                | Inr n_Cu \<Rightarrow> Inr (n_Al, n_Cu))))"

section \<open>The enthalpy of formation\<close>

text \<open>
  \<^verbatim>\<open>
  def enthalpy_of_formation(energy, n_Al, n_Cu, energy_Al, energy_Cu):
      return (energy - n_Al * energy_Al - n_Cu * energy_Cu) / (n_Al + n_Cu)
  \<close>
  Python's floats are read as real numbers.
\<close>

definition enthalpy_of_formation ::
  "real \<Rightarrow> real \<Rightarrow> real \<Rightarrow> real \<Rightarrow> real \<Rightarrow> py_error + real" where
  "enthalpy_of_formation energy n_Al n_Cu energy_Al energy_Cu =
     py_div (energy - n_Al * energy_Al - n_Cu * energy_Cu) (n_Al + n_Cu)"

section \<open>The demonstration loop\<close>

text \<open>
  \<^verbatim>\<open>
  points = [(0.0, 0.0), (1.0, 0.0)]
  for pif in AlCu_pifs:
      rv = ReadView(pif)
      energy = rv["Total Energy"].scalars[0].value
      n_Al, n_Cu = get_stoich(rv.chemical_formula)
      if n_Al == 0 and n_Cu == 0: continue
      points.append((
              n_Cu / (n_Cu + n_Al),
              enthalpy_of_formation(energy, n_Al, n_Cu, energy_Al, energy_Cu)
          ))
  \<close>
  The record read through \<open>ReadView\<close> is an input: its formula and its total energy.
\<close>

record read_view =
  chemical_formula :: string
  total_energy :: real

definition loop_body ::
  "real \<Rightarrow> real \<Rightarrow> (real \<times> real) list \<Rightarrow> read_view \<Rightarrow> py_error + (real \<times> real) list" where
  "loop_body energy_Al energy_Cu points rv =
     (let energy = total_energy rv in
      case get_stoich (chemical_formula rv) of
        Inl e \<Rightarrow> Inl e
      | Inr (n_Al, n_Cu) \<Rightarrow>
          if n_Al = 0 \<and> n_Cu = 0 then Inr points
          else
            (case py_div n_Cu (n_Cu + n_Al) of
               Inl e \<Rightarrow> Inl e
             | Inr x_Cu \<Rightarrow>
                 (case enthalpy_of_formation energy n_Al n_Cu energy_Al energy_Cu of
                    Inl e \<Rightarrow> Inl e
                  | Inr h \<Rightarrow> Inr (points @ [(x_Cu, h)]))))"

fun loop :: "real \<Rightarrow> real \<Rightarrow> (real \<times> real) list \<Rightarrow> read_view list \<Rightarrow> py_error + (real \<times> real) list" where
  "loop energy_Al energy_Cu points [] = Inr points"
| "loop energy_Al energy_Cu points (rv # rvs) =
     (case loop_body energy_Al energy_Cu points rv of
        Inl e \<Rightarrow> Inl e
      | Inr points' \<Rightarrow> loop energy_Al energy_Cu points' rvs)"

definition AlCu_points :: "real \<Rightarrow> real \<Rightarrow> read_view list \<Rightarrow> py_error + (real \<times> real) list" where
  "AlCu_points energy_Al energy_Cu AlCu_pifs = loop energy_Al energy_Cu [(0, 0), (1, 0)] AlCu_pifs"

section \<open>The probability of improvement\<close>

text \<open>
  \<^verbatim>\<open>
  from scipy.special import erf
  from math import sqrt

  def probability_improvement(mean, sigma, baseline):
      return float(0.5 * (1.0 + erf((mean - baseline) / (sigma * sqrt(2.0)))))
  \<close>
  \<open>erf\<close> is SciPy's, not code of the notebooks.  It is taken to be the error function
  of analysis, given by its Maclaurin series
  \<open>erf x = 2 / sqrt pi * (\<Sum>k. (-1)^k * x^(2k+1) / (k! * (2k+1)))\<close>;
  that this is the function with \<open>erf 0 = 0\<close> and derivative
  \<open>2 / sqrt pi * exp (- x\<^sup>2)\<close> is proved below.  Floats are read as real numbers, on which
  the outer \<open>float\<close> changes nothing, and the callers pass Python floats, for which a zero
  divisor raises.
\<close>

definition erf_term :: "real \<Rightarrow> nat \<Rightarrow> real" where
  "erf_term x k = (- 1) ^ k * x ^ (2 * k + 1) / (fact k * real (2 * k + 1))"

definition erf :: "real \<Rightarrow> real" where
  "erf x = 2 / sqrt pi * (\<Sum>k. erf_term x k)"

definition probability_improvement :: "real \<Rightarrow> real \<Rightarrow> real \<Rightarrow> py_error + real" where
  "probability_improvement mean sigma baseline =
     (case py_div (mean - baseline) (sigma * sqrt 2) of
        Inl e \<Rightarrow> Inl e
      | Inr z \<Rightarrow> Inr (0.5 * (1 + erf z)))"

section \<open>The pattern and the counts, as the specification words them\<close>

definition digits :: "string \<Rightarrow> bool" where
  "digits s = list_all is_digit s"

definition count_of :: "string \<Rightarrow> real" where
  \<comment> \<open>The count a run of digits stands for: 1 when it is omitted.\<close>
  "count_of d = (if d = [] then 1 else real (decimal_val d))"

definition matches_at_start :: "string \<Rightarrow> bool" where
  \<comment> \<open>The start of \<open>s\<close> has the shape \<open>Al[digits]Cu[digits]\<close>.\<close>
  "matches_at_start s =
     (\<exists>d1 d2 rest. digits d1 \<and> digits d2 \<and> s = ''Al'' @ d1 @ ''Cu'' @ d2 @ rest)"

section \<open>The normal distribution, as the specification words it\<close>

definition normal_density :: "real \<Rightarrow> real \<Rightarrow> real \<Rightarrow> real" where
  \<comment> \<open>The density of the normal distribution with the given mean and standard deviation.\<close>
  "normal_density mean sigma x =
     1 / (sigma * sqrt (2 * pi)) * exp (- ((x - mean)\<^sup>2 / (2 * sigma\<^sup>2)))"

definition normal_upper_tail :: "real \<Rightarrow> real \<Rightarrow> (real \<Rightarrow> real) \<Rightarrow> bool" where
  \<comment> \<open>\<open>F b\<close> is the probability that a normal random variable exceeds \<open>b\<close>, that is the
      integral of the density from \<open>b\<close> to infinity: \<open>F\<close> is an antiderivative of minus
      the density, it vanishes at \<open>+\<infinity>\<close>, and the whole mass, its limit at \<open>-\<infinity>\<close>, is 1.\<close>
  "normal_upper_tail mean sigma F \<longleftrightarrow>
     (\<forall>b. (F has_real_derivative - normal_density mean sigma b) (at b))
     \<and> (F \<longlongrightarrow> 0) at_top \<and> (F \<longlongrightarrow> 1) at_bot"

section \<open>Auxiliary functions of the analysis\<close>

text \<open>The series of \<open>erf\<close> as a power series with coefficients indexed by the exponent.\<close>

definition erf_coeff :: "nat \<Rightarrow> real" where
  "erf_coeff n = (if even n then (- 1) ^ (n div 2) / (fact (n div 2) * real (Suc n)) else 0)"

text \<open>
  The antiderivative of \<open>cos ^ k\<close> that vanishes at 0, by the reduction formula, its value
  at \<open>pi / 2\<close> (the Wallis integral), and the antiderivative of \<open>exp (- x\<^sup>2)\<close>.
\<close>

fun cos_int :: "nat \<Rightarrow> real \<Rightarrow> real" where
  "cos_int 0 x = x"
| "cos_int (Suc 0) x = sin x"
| "cos_int (Suc (Suc k)) x =
     cos x ^ Suc k * sin x / real (k + 2) + real (k + 1) / real (k + 2) * cos_int k x"

definition wallis :: "nat \<Rightarrow> real" where
  "wallis k = cos_int k (pi / 2)"

definition gauss_int :: "real \<Rightarrow> real" where
  "gauss_int x = sqrt pi / 2 * erf x"

section \<open>Properties of the parser\<close>

text \<open>
  The value of a run of digits is positional, and the match is characterised both ways:
  a string of the shape \<open>Al[digits]Cu[digits]\<close> followed by any text is matched, with the
  second group extended over the digits that follow, and a matched string has that shape.
\<close>

lemma decimal_val_snoc: "decimal_val (s @ [c]) = 10 * decimal_val s + digit_val c"
  by (simp add: decimal_val_def)

lemma is_digit_C [simp]: "\<not> is_digit CHR ''C''"
  by (simp add: is_digit_def)

lemma takeWhile_digits_append:
  "digits d \<Longrightarrow> takeWhile is_digit (d @ r) = d @ takeWhile is_digit r"
  by (induction d) (simp_all add: digits_def)

lemma dropWhile_digits_append:
  "digits d \<Longrightarrow> dropWhile is_digit (d @ r) = dropWhile is_digit r"
  by (induction d) (simp_all add: digits_def)

lemma digits_takeWhile [simp]: "digits (takeWhile is_digit r)"
  by (induction r) (simp_all add: digits_def)

lemma digits_append [simp]: "digits (a @ b) = (digits a \<and> digits b)"
  by (simp add: digits_def)

lemma re_match_AlCu_shape:
  assumes "digits a" and "digits b"
  shows "re_match_AlCu (''Al'' @ a @ ''Cu'' @ b @ rest) = Some (a, b @ takeWhile is_digit rest)"
proof -
  have drop: "dropWhile is_digit (a @ ''Cu'' @ b @ rest) = ''Cu'' @ b @ rest"
    using assms(1) by (simp add: dropWhile_digits_append)
  have take1: "takeWhile is_digit (a @ ''Cu'' @ b @ rest) = a"
    using assms(1) by (simp add: takeWhile_digits_append)
  have take2: "takeWhile is_digit (b @ rest) = b @ takeWhile is_digit rest"
    using assms(2) by (rule takeWhile_digits_append)
  show ?thesis
    unfolding re_match_AlCu_def using drop take1 take2 by simp
qed

lemma strip_prefix_Some: "strip_prefix p s = Some r \<Longrightarrow> s = p @ r"
  by (induction p s rule: strip_prefix.induct) (auto split: if_splits)

lemma re_match_AlCu_Some:
  assumes "re_match_AlCu s = Some (g1, g2)"
  shows "\<exists>rest. s = ''Al'' @ g1 @ ''Cu'' @ g2 @ rest \<and> digits g1 \<and> digits g2"
proof -
  from assms obtain r1 r2 where
    r1: "strip_prefix ''Al'' s = Some r1" and
    r2: "strip_prefix ''Cu'' (dropWhile is_digit r1) = Some r2" and
    g: "g1 = takeWhile is_digit r1" "g2 = takeWhile is_digit r2"
    unfolding re_match_AlCu_def by (auto split: option.splits)
  have "s = ''Al'' @ r1"
    using r1 by (rule strip_prefix_Some)
  moreover have "r1 = g1 @ dropWhile is_digit r1"
    using g by simp
  moreover have "dropWhile is_digit r1 = ''Cu'' @ r2"
    using r2 by (rule strip_prefix_Some)
  moreover have "r2 = g2 @ dropWhile is_digit r2"
    using g by simp
  ultimately have "s = ''Al'' @ g1 @ ''Cu'' @ g2 @ dropWhile is_digit r2"
    by metis
  moreover have "digits g1" "digits g2"
    using g by simp_all
  ultimately show ?thesis
    by blast
qed

lemma matches_at_start_iff: "matches_at_start s \<longleftrightarrow> re_match_AlCu s \<noteq> None"
proof
  assume "matches_at_start s"
  then show "re_match_AlCu s \<noteq> None"
    unfolding matches_at_start_def using re_match_AlCu_shape by fastforce
next
  assume "re_match_AlCu s \<noteq> None"
  then obtain g1 g2 where "re_match_AlCu s = Some (g1, g2)"
    by auto
  from re_match_AlCu_Some [OF this] show "matches_at_start s"
    unfolding matches_at_start_def by blast
qed

lemma float_py_digits: "digits d \<Longrightarrow> d \<noteq> [] \<Longrightarrow> float_py d = Inr (real (decimal_val d))"
  by (simp add: float_py_def digits_def)

lemma get_stoich_of_groups:
  assumes "re_match_AlCu s = Some (g1, g2)" and "digits g1" and "digits g2"
  shows "get_stoich s = Inr (count_of g1, count_of g2)"
  using assms by (simp add: get_stoich_def count_of_def float_py_digits)

lemma get_stoich_shape:
  assumes "digits a" and "digits b"
  shows "get_stoich (''Al'' @ a @ ''Cu'' @ b @ rest)
           = Inr (count_of a, count_of (b @ takeWhile is_digit rest))"
  using get_stoich_of_groups [OF re_match_AlCu_shape [OF assms, of rest]] assms by simp

lemma get_stoich_no_match: "re_match_AlCu s = None \<Longrightarrow> get_stoich s = Inr (0, 0)"
  by (simp add: get_stoich_def)

lemma get_stoich_returns: "\<exists>n_Al n_Cu. get_stoich s = Inr (n_Al, n_Cu)"
proof (cases "re_match_AlCu s")
  case None
  then show ?thesis
    by (simp add: get_stoich_no_match)
next
  case (Some g)
  obtain g1 g2 where g: "g = (g1, g2)"
    by (cases g)
  from Some g re_match_AlCu_Some [of s g1 g2] have "digits g1" "digits g2"
    by auto
  with Some g show ?thesis
    by (simp add: get_stoich_of_groups)
qed

lemmas parser_defs =
  get_stoich_def re_match_AlCu_def is_digit_def float_py_def decimal_val_def digit_val_def

section \<open>The error function\<close>

text \<open>
  The series of \<open>erf\<close> converges everywhere and is differentiated term by term: the
  derivative of \<open>erf\<close> is \<open>2 / sqrt pi * exp (- x\<^sup>2)\<close>.  Hence \<open>erf\<close> is strictly increasing;
  it is odd, since every term of the series is.
\<close>

lemma sums_interleave_zero:
  fixes g :: "nat \<Rightarrow> real"
  assumes "g sums s"
  shows "(\<lambda>n. if even n then g (n div 2) else 0) sums s"
  using sums_if [OF sums_zero assms] by simp

lemma even_double_half: "even n \<Longrightarrow> 2 * (n div 2) = (n::nat)"
  by presburger

lemma gauss_series:
  fixes x :: real
  shows "(\<lambda>k. (- 1) ^ k * x ^ (2 * k) / fact k) sums exp (- (x\<^sup>2))"
proof -
  have "(\<lambda>k. (- (x\<^sup>2)) ^ k /\<^sub>R fact k) sums exp (- (x\<^sup>2))"
    by (rule exp_converges)
  moreover have "(- (x\<^sup>2)) ^ k /\<^sub>R fact k = (- 1) ^ k * x ^ (2 * k) / fact k" for k
  proof -
    have "(- (x\<^sup>2)) ^ k = (- 1) ^ k * (x\<^sup>2) ^ k"
      by (rule power_minus)
    also have "(x\<^sup>2) ^ k = x ^ (2 * k)"
      by (rule power_mult [symmetric])
    finally have e: "(- (x\<^sup>2)) ^ k = (- 1) ^ k * x ^ (2 * k)" .
    show ?thesis
      unfolding e by (simp add: divide_inverse)
  qed
  ultimately show ?thesis
    by simp
qed

lemma erf_coeff_deriv_term:
  fixes x :: real
  shows "erf_coeff n * real (Suc n) * x ^ n
     = (if even n then (- 1) ^ (n div 2) * x ^ (2 * (n div 2)) / fact (n div 2) else 0)"
  by (simp add: erf_coeff_def even_double_half)

lemma erf_coeff_deriv_sums: "(\<lambda>n. erf_coeff n * real (Suc n) * x ^ n) sums exp (- (x\<^sup>2))"
  unfolding erf_coeff_deriv_term by (rule sums_interleave_zero [OF gauss_series])

lemma erf_coeff_series_deriv:
  "((\<lambda>x. \<Sum>n. erf_coeff n * x ^ Suc n) has_real_derivative exp (- (x\<^sup>2))) (at x)"
proof -
  have "((\<lambda>x. \<Sum>n. erf_coeff n * x ^ Suc n) has_real_derivative
          (\<Sum>n. erf_coeff n * real (Suc n) * x ^ n)) (at x)"
  proof (rule DERIV_power_series' [where R = "\<bar>x\<bar> + 1"])
    show "summable (\<lambda>n. erf_coeff n * real (Suc n) * y ^ n)" for y
      using erf_coeff_deriv_sums [of y] by (rule sums_summable)
  qed auto
  moreover have "(\<Sum>n. erf_coeff n * real (Suc n) * x ^ n) = exp (- (x\<^sup>2))"
    using erf_coeff_deriv_sums [of x] by (rule sums_unique [symmetric])
  ultimately show ?thesis
    by simp
qed

lemma erf_term_abs_le: "\<bar>erf_term x k\<bar> \<le> \<bar>x\<bar> * ((x\<^sup>2) ^ k /\<^sub>R fact k)"
proof -
  have pw: "x ^ (2 * k + 1) = x * (x\<^sup>2) ^ k"
    by (simp add: power_mult)
  have "\<bar>erf_term x k\<bar> = \<bar>x ^ (2 * k + 1)\<bar> / (fact k * real (2 * k + 1))"
    unfolding erf_term_def by (simp add: abs_mult power_abs)
  also have "\<bar>x ^ (2 * k + 1)\<bar> = \<bar>x\<bar> * (x\<^sup>2) ^ k"
    unfolding pw by (simp add: abs_mult)
  also have "\<bar>x\<bar> * (x\<^sup>2) ^ k / (fact k * real (2 * k + 1)) \<le> \<bar>x\<bar> * (x\<^sup>2) ^ k / (fact k * 1)"
    by (intro divide_left_mono mult_left_mono mult_nonneg_nonneg mult_pos_pos) simp_all
  finally show ?thesis
    by (simp add: divide_inverse mult.commute mult.left_commute)
qed

lemma erf_term_summable: "summable (erf_term x)"
proof (rule summable_comparison_test')
  show "summable (\<lambda>k. \<bar>x\<bar> * ((x\<^sup>2) ^ k /\<^sub>R fact k))"
    by (intro summable_mult sums_summable [OF exp_converges])
  show "norm (erf_term x k) \<le> \<bar>x\<bar> * ((x\<^sup>2) ^ k /\<^sub>R fact k)" for k
    using erf_term_abs_le by simp
qed

lemma erf_coeff_term: "erf_coeff n * x ^ Suc n = (if even n then erf_term x (n div 2) else 0)"
  by (simp add: erf_coeff_def erf_term_def even_double_half)

lemma erf_series_eq: "(\<Sum>n. erf_coeff n * x ^ Suc n) = (\<Sum>k. erf_term x k)"
proof -
  have "erf_term x sums (\<Sum>k. erf_term x k)"
    using erf_term_summable by (rule summable_sums)
  then have "(\<lambda>n. erf_coeff n * x ^ Suc n) sums (\<Sum>k. erf_term x k)"
    unfolding erf_coeff_term by (rule sums_interleave_zero)
  then show ?thesis
    by (rule sums_unique [symmetric])
qed

lemma erf_eq_coeff_series: "erf = (\<lambda>x. 2 / sqrt pi * (\<Sum>n. erf_coeff n * x ^ Suc n))"
  by (rule ext) (simp only: erf_def erf_series_eq)

lemma DERIV_erf: "(erf has_real_derivative 2 / sqrt pi * exp (- (x\<^sup>2))) (at x)"
  unfolding erf_eq_coeff_series
  by (rule DERIV_cmult [OF erf_coeff_series_deriv])

lemma erf_0 [simp]: "erf 0 = 0"
  by (simp add: erf_def erf_term_def)

lemma erf_strict_mono:
  assumes "x < y"
  shows "erf x < erf y"
proof (rule DERIV_pos_imp_increasing [of x y erf, OF assms])
  fix t :: real
  have "0 < 2 / sqrt pi * exp (- (t\<^sup>2))"
    by simp
  with DERIV_erf [of t]
  show "\<exists>d. (erf has_real_derivative d) (at t) \<and> 0 < d"
    by blast
qed

lemma erf_mono: "x \<le> y \<Longrightarrow> erf x \<le> erf y"
  using erf_strict_mono [of x y] by (cases "x = y") auto

lemma erf_term_minus: "erf_term (- x) k = - erf_term x k"
  by (simp add: erf_term_def)

lemma erf_minus: "erf (- x) = - erf x"
proof -
  have "(\<Sum>k. erf_term (- x) k) = (\<Sum>k. - erf_term x k)"
    by (simp only: erf_term_minus)
  also have "\<dots> = - (\<Sum>k. erf_term x k)"
    by (rule suminf_minus [OF erf_term_summable])
  finally show ?thesis
    by (simp add: erf_def)
qed

text \<open>
  The bounds of \<open>erf\<close> need the value of the Gaussian integral.  With no integral at
  hand, antiderivatives take its place: \<open>cos_int k\<close> is an antiderivative of \<open>cos ^ k\<close>, and
  its values at \<open>pi / 2\<close> satisfy the recurrence of the Wallis integrals, are positive and
  decrease, which bounds their squares from both sides.
\<close>

lemma cos_int_step_algebra:
  fixes C c2 r :: real
  assumes "0 \<le> r"
  shows "(- (r * C * (1 - c2)) + C * c2) / (r + 1) + r / (r + 1) * C = C * c2"
proof -
  have nz: "r + 1 \<noteq> 0"
    using assms by linarith
  have "(- (r * C * (1 - c2)) + C * c2) / (r + 1) + r / (r + 1) * C
          = (- (r * C * (1 - c2)) + C * c2 + r * C) / (r + 1)"
    by (simp add: add_divide_distrib)
  also have "- (r * C * (1 - c2)) + C * c2 + r * C = (r + 1) * (C * c2)"
    by (simp add: algebra_simps)
  also have "(r + 1) * (C * c2) / (r + 1) = C * c2"
    using nz by simp
  finally show ?thesis .
qed

lemma DERIV_cos_int: "(cos_int k has_real_derivative cos x ^ k) (at x)"
proof (induction k x rule: cos_int.induct)
  case (1 x)
  show ?case by (simp add: cos_int.simps [abs_def])
next
  case (2 x)
  show ?case by (simp add: cos_int.simps [abs_def])
next
  case (3 k y)
  let ?P = "- (real (k + 1) * cos y ^ k * (1 - (cos y)\<^sup>2)) + cos y ^ k * (cos y)\<^sup>2"
  have s: "sin y * sin y = 1 - (cos y)\<^sup>2"
    by (simp add: sin_squared_eq flip: power2_eq_square)
  have c: "((\<lambda>x. cos x ^ Suc k) has_real_derivative real (Suc k) * (- sin y * cos y ^ k)) (at y)"
    using DERIV_power [OF DERIV_cos [of y], where n = "Suc k"] by simp
  have "real (Suc k) * (- sin y * cos y ^ k) * sin y + cos y * cos y ^ Suc k
          = - (real (k + 1) * cos y ^ k * (sin y * sin y)) + cos y ^ k * (cos y)\<^sup>2"
    by (simp add: power2_eq_square)
  then have "real (Suc k) * (- sin y * cos y ^ k) * sin y + cos y * cos y ^ Suc k = ?P"
    unfolding s .
  then have p: "((\<lambda>x. cos x ^ Suc k * sin x) has_real_derivative ?P) (at y)"
    by (rule DERIV_cong [OF DERIV_mult [OF c DERIV_sin]])
  have "((\<lambda>x. cos x ^ Suc k * sin x / real (k + 2) + real (k + 1) / real (k + 2) * cos_int k x)
          has_real_derivative ?P / real (k + 2) + real (k + 1) / real (k + 2) * cos y ^ k) (at y)"
    by (rule DERIV_add [OF DERIV_cdivide [OF p] DERIV_cmult [OF "3.IH"]])
  moreover have "?P / real (k + 2) + real (k + 1) / real (k + 2) * cos y ^ k = cos y ^ k * (cos y)\<^sup>2"
    using cos_int_step_algebra [of "real (k + 1)" "cos y ^ k" "(cos y)\<^sup>2"]
    by (simp add: add.commute)
  moreover have "cos y ^ k * (cos y)\<^sup>2 = cos y ^ Suc (Suc k)"
    by (simp add: power2_eq_square)
  ultimately show ?case
    by (simp add: cos_int.simps(3) [abs_def])
qed

lemma wallis_0: "wallis 0 = pi / 2"
  by (simp add: wallis_def)

lemma wallis_1: "wallis (Suc 0) = 1"
  by (simp add: wallis_def)

lemma wallis_step: "wallis (Suc (Suc k)) = real (k + 1) / real (k + 2) * wallis k"
  by (simp add: wallis_def)

lemma wallis_product: "real (k + 1) * wallis (Suc k) * wallis k = pi / 2"
proof (induction k)
  case 0
  show ?case by (simp add: wallis_0 wallis_1)
next
  case (Suc k)
  have a: "real (k + 2) * wallis (Suc (Suc k)) = real (k + 1) * wallis k"
    by (simp add: wallis_step)
  have "real (Suc k + 1) * wallis (Suc (Suc k)) * wallis (Suc k)
          = (real (k + 2) * wallis (Suc (Suc k))) * wallis (Suc k)"
    by (simp only: Suc_eq_plus1 add.assoc one_add_one)
  also have "\<dots> = real (k + 1) * wallis k * wallis (Suc k)"
    by (simp only: a)
  also have "\<dots> = real (k + 1) * wallis (Suc k) * wallis k"
    by (simp only: mult.assoc mult.commute mult.left_commute)
  also have "\<dots> = pi / 2"
    by (rule Suc.IH)
  finally show ?case .
qed

lemma wallis_pos_pair: "0 < wallis k \<and> 0 < wallis (Suc k)"
proof (induction k)
  case 0
  show ?case by (simp add: wallis_0 wallis_1)
next
  case (Suc k)
  then have "0 < real (k + 1) / real (k + 2) * wallis k"
    by (intro mult_pos_pos divide_pos_pos) simp_all
  with Suc show ?case
    by (simp only: wallis_step)
qed

lemma wallis_pos: "0 < wallis k"
  using wallis_pos_pair by blast

lemma cos_int_0 [simp]: "cos_int k 0 = 0"
  by (induction k "0::real" rule: cos_int.induct) simp_all

lemma wallis_antimono: "wallis (Suc k) \<le> wallis k"
proof -
  let ?f = "\<lambda>x. cos_int k x - cos_int (Suc k) x"
  have "?f 0 \<le> ?f (pi / 2)"
  proof (rule DERIV_nonneg_imp_nondecreasing [of 0 "pi / 2" ?f])
    show "0 \<le> pi / 2" by simp
  next
    fix x :: real
    assume x: "0 \<le> x" "x \<le> pi / 2"
    then have c: "0 \<le> cos x"
      by (intro cos_ge_zero) simp_all
    have "(?f has_real_derivative cos x ^ k - cos x ^ Suc k) (at x)"
      by (rule DERIV_diff [OF DERIV_cos_int DERIV_cos_int])
    moreover have "cos x ^ k - cos x ^ Suc k = cos x ^ k * (1 - cos x)"
      by (simp add: algebra_simps)
    moreover have "0 \<le> cos x ^ k * (1 - cos x)"
      using c by (intro mult_nonneg_nonneg zero_le_power) simp_all
    ultimately show "\<exists>d. (?f has_real_derivative d) (at x) \<and> 0 \<le> d"
      by (metis (no_types, lifting))
  qed
  then show ?thesis
    by (simp add: wallis_def)
qed

lemma wallis_sq_upper: "(wallis (Suc k))\<^sup>2 \<le> pi / (2 * real (k + 1))"
proof -
  have "(wallis (Suc k))\<^sup>2 = wallis (Suc k) * wallis (Suc k)"
    by (rule power2_eq_square)
  also have "\<dots> \<le> wallis (Suc k) * wallis k"
    using wallis_antimono [of k] wallis_pos [of "Suc k"] by (intro mult_left_mono) simp_all
  also have "\<dots> = pi / (2 * real (k + 1))"
    using wallis_product [of k] by (simp add: field_simps)
  finally show ?thesis .
qed

lemma wallis_sq_lower: "pi / (2 * real (k + 1)) \<le> (wallis k)\<^sup>2"
proof -
  have "pi / (2 * real (k + 1)) = wallis (Suc k) * wallis k"
    using wallis_product [of k] by (simp add: field_simps)
  also have "\<dots> \<le> wallis k * wallis k"
    using wallis_antimono [of k] wallis_pos [of k] by (intro mult_right_mono) simp_all
  finally show ?thesis
    by (simp add: power2_eq_square)
qed

text \<open>
  From \<open>exp (- t\<^sup>2) \<le> (1 + t\<^sup>2 / N) ^ - N\<close>, whose antiderivative is
  \<open>sqrt N * cos_int (2 * N - 2) (arctan (t / sqrt N))\<close>, the antiderivative of
  \<open>exp (- t\<^sup>2)\<close> stays below \<open>sqrt N * wallis (2 * N - 2)\<close> for every \<open>N\<close>, and so below
  \<open>sqrt pi / 2\<close>: the error function never exceeds 1.
\<close>

lemma DERIV_gauss_int: "(gauss_int has_real_derivative exp (- (x\<^sup>2))) (at x)"
proof -
  have "((\<lambda>x. sqrt pi / 2 * erf x) has_real_derivative sqrt pi / 2 * (2 / sqrt pi * exp (- (x\<^sup>2)))) (at x)"
    by (rule DERIV_cmult [OF DERIV_erf])
  moreover have "sqrt pi / 2 * (2 / sqrt pi * exp (- (x\<^sup>2))) = exp (- (x\<^sup>2))"
    by simp
  ultimately show ?thesis
    by (simp add: gauss_int_def [abs_def])
qed

lemma gauss_int_0 [simp]: "gauss_int 0 = 0"
  by (simp add: gauss_int_def)

lemma gauss_int_nonneg: "0 \<le> x \<Longrightarrow> 0 \<le> gauss_int x"
  using erf_mono [of 0 x] by (simp add: gauss_int_def)

lemma exp_minus_sq_le:
  fixes t :: real
  assumes "0 < N"
  shows "exp (- (t\<^sup>2)) \<le> inverse ((1 + t\<^sup>2 / real N) ^ N)"
proof -
  have "(1 + t\<^sup>2 / real N) ^ N \<le> exp (t\<^sup>2 / real N) ^ N"
    by (intro power_mono exp_ge_add_one_self add_nonneg_nonneg divide_nonneg_nonneg) simp_all
  also have "\<dots> = exp (real N * (t\<^sup>2 / real N))"
    by (rule exp_of_nat_mult [symmetric])
  also have "real N * (t\<^sup>2 / real N) = t\<^sup>2"
    using assms by simp
  finally have "(1 + t\<^sup>2 / real N) ^ N \<le> exp (t\<^sup>2)" .
  moreover have "0 < (1 + t\<^sup>2 / real N) ^ N"
    by (intro zero_less_power add_pos_nonneg divide_nonneg_nonneg) simp_all
  ultimately have "inverse (exp (t\<^sup>2)) \<le> inverse ((1 + t\<^sup>2 / real N) ^ N)"
    by (rule le_imp_inverse_le)
  then show ?thesis
    by (simp only: exp_minus)
qed

lemma cos_arctan_sq: "(cos (arctan u))\<^sup>2 = inverse (1 + u\<^sup>2)"
proof -
  have "0 \<le> 1 + u\<^sup>2"
    by (intro add_nonneg_nonneg) simp_all
  then show ?thesis
    by (simp add: cos_arctan power_divide inverse_eq_divide)
qed

lemma gauss_int_le_cos_int:
  assumes "0 \<le> x"
  shows "gauss_int x \<le> sqrt (real (Suc m)) * cos_int (2 * m) (arctan (x / sqrt (real (Suc m))))"
proof -
  let ?r = "sqrt (real (Suc m))"
  let ?h = "\<lambda>t. ?r * cos_int (2 * m) (arctan (t / ?r)) - gauss_int t"
  have r: "0 < ?r"
    by simp
  have "?h 0 \<le> ?h x"
  proof (rule DERIV_nonneg_imp_nondecreasing [of 0 x ?h, OF assms])
    fix t :: real
    let ?u = "t / ?r"
    have d1: "((\<lambda>t. t / ?r) has_real_derivative 1 / ?r) (at t)"
      by (rule DERIV_cdivide [OF DERIV_ident])
    have d2: "((\<lambda>t. arctan (t / ?r)) has_real_derivative inverse (1 + ?u\<^sup>2) * (1 / ?r)) (at t)"
      by (rule DERIV_chain2 [OF DERIV_arctan d1])
    have d3: "((\<lambda>t. cos_int (2 * m) (arctan (t / ?r))) has_real_derivative
                cos (arctan ?u) ^ (2 * m) * (inverse (1 + ?u\<^sup>2) * (1 / ?r))) (at t)"
      by (rule DERIV_chain2 [OF DERIV_cos_int d2])
    have d4: "(?h has_real_derivative
                ?r * (cos (arctan ?u) ^ (2 * m) * (inverse (1 + ?u\<^sup>2) * (1 / ?r))) - exp (- (t\<^sup>2))) (at t)"
      by (rule DERIV_diff [OF DERIV_cmult [OF d3] DERIV_gauss_int])
    have e2: "cos (arctan ?u) ^ (2 * m) = inverse (1 + ?u\<^sup>2) ^ m"
      by (simp only: power_mult cos_arctan_sq)
    have e4: "?u\<^sup>2 = t\<^sup>2 / real (Suc m)"
      by (simp add: power_divide)
    have "?r * (cos (arctan ?u) ^ (2 * m) * (inverse (1 + ?u\<^sup>2) * (1 / ?r)))
            = cos (arctan ?u) ^ (2 * m) * inverse (1 + ?u\<^sup>2)"
      using r by simp
    also have "\<dots> = inverse (1 + ?u\<^sup>2) ^ m * inverse (1 + ?u\<^sup>2)"
      by (simp only: e2)
    also have "\<dots> = inverse ((1 + ?u\<^sup>2) ^ Suc m)"
      by (simp add: power_inverse)
    also have "\<dots> = inverse ((1 + t\<^sup>2 / real (Suc m)) ^ Suc m)"
      by (simp only: e4)
    finally have e: "?r * (cos (arctan ?u) ^ (2 * m) * (inverse (1 + ?u\<^sup>2) * (1 / ?r)))
            = inverse ((1 + t\<^sup>2 / real (Suc m)) ^ Suc m)" .
    have "0 \<le> inverse ((1 + t\<^sup>2 / real (Suc m)) ^ Suc m) - exp (- (t\<^sup>2))"
      using exp_minus_sq_le [of "Suc m" t] by simp
    with d4 show "\<exists>d. (?h has_real_derivative d) (at t) \<and> 0 \<le> d"
      unfolding e by blast
  qed
  then show ?thesis
    by simp
qed

lemma cos_int_even_le_wallis:
  assumes "x \<le> pi / 2"
  shows "cos_int (2 * m) x \<le> wallis (2 * m)"
  unfolding wallis_def
proof (rule DERIV_nonneg_imp_nondecreasing [of x "pi / 2" "cos_int (2 * m)", OF assms])
  fix t :: real
  have "0 \<le> cos t ^ (2 * m)"
    by (simp add: power_mult)
  with DERIV_cos_int [of "2 * m" t]
  show "\<exists>d. (cos_int (2 * m) has_real_derivative d) (at t) \<and> 0 \<le> d"
    by blast
qed

lemma gauss_int_le_wallis:
  assumes "0 \<le> x"
  shows "gauss_int x \<le> sqrt (real (Suc m)) * wallis (2 * m)"
proof -
  have "arctan (x / sqrt (real (Suc m))) \<le> pi / 2"
    using arctan_ubound [of "x / sqrt (real (Suc m))"] by simp
  then have "cos_int (2 * m) (arctan (x / sqrt (real (Suc m)))) \<le> wallis (2 * m)"
    by (rule cos_int_even_le_wallis)
  then have "sqrt (real (Suc m)) * cos_int (2 * m) (arctan (x / sqrt (real (Suc m))))
               \<le> sqrt (real (Suc m)) * wallis (2 * m)"
    by (intro mult_left_mono) simp_all
  with gauss_int_le_cos_int [OF assms, of m] show ?thesis
    by linarith
qed

lemma gauss_int_sq_le_approx:
  assumes "0 \<le> x"
  shows "(gauss_int x)\<^sup>2 \<le> pi / 4 * (1 + inverse (real (Suc j)))"
proof -
  have "(gauss_int x)\<^sup>2 \<le> (sqrt (real (Suc (Suc j))) * wallis (2 * Suc j))\<^sup>2"
    using gauss_int_le_wallis [OF assms, of "Suc j"] gauss_int_nonneg [OF assms]
    by (intro power_mono) simp_all
  also have "\<dots> = real (Suc (Suc j)) * (wallis (Suc (2 * j + 1)))\<^sup>2"
    by (simp add: power_mult_distrib)
  also have "\<dots> \<le> real (Suc (Suc j)) * (pi / (2 * real (2 * j + 1 + 1)))"
    by (intro mult_left_mono wallis_sq_upper) simp
  also have "\<dots> = pi / 4 * (1 + inverse (real (Suc j)))"
    by (simp add: field_simps)
  finally show ?thesis .
qed

lemma gauss_int_sq_le:
  assumes "0 \<le> x"
  shows "(gauss_int x)\<^sup>2 \<le> pi / 4"
proof (rule LIMSEQ_le_const)
  have "(\<lambda>j. pi / 4 * (1 + inverse (real (Suc j)))) \<longlonglongrightarrow> pi / 4 * (1 + 0)"
    by (intro tendsto_mult tendsto_add tendsto_const LIMSEQ_inverse_real_of_nat)
  then show "(\<lambda>j. pi / 4 * (1 + inverse (real (Suc j)))) \<longlonglongrightarrow> pi / 4"
    by simp
  show "\<exists>N. \<forall>n\<ge>N. (gauss_int x)\<^sup>2 \<le> pi / 4 * (1 + inverse (real (Suc n)))"
    using gauss_int_sq_le_approx [OF assms] by blast
qed

lemma erf_le_1: "erf x \<le> 1"
proof (cases "0 \<le> x")
  case True
  have "(gauss_int x)\<^sup>2 \<le> (sqrt pi / 2)\<^sup>2"
    using gauss_int_sq_le [OF True] by (simp add: power_divide)
  then have "gauss_int x \<le> sqrt pi / 2"
    by (rule power2_le_imp_le) simp
  then have "sqrt pi / 2 * erf x \<le> sqrt pi / 2 * 1"
    by (simp add: gauss_int_def)
  then show ?thesis
    by (rule mult_left_le_imp_le) simp
next
  case False
  then have "erf x \<le> erf 0"
    by (intro erf_mono) simp
  then show ?thesis
    by simp
qed

lemma erf_less_1: "erf x < 1"
  using erf_strict_mono [of x "x + 1"] erf_le_1 [of "x + 1"] by simp

lemma erf_greater_minus_1: "- 1 < erf x"
  using erf_less_1 [of "- x"] by (simp add: erf_minus)

text \<open>
  From \<open>(1 - s\<^sup>2) ^ N \<le> exp (- N * s\<^sup>2)\<close> with \<open>s = sin t\<close>, the value of \<open>erf\<close> at \<open>sqrt N\<close> is at
  least \<open>1 - 1 / (N + 1)\<close>: the error function tends to 1 at \<open>+\<infinity>\<close>, and to \<open>- 1\<close> at
  \<open>-\<infinity>\<close>.
\<close>

lemma cos_pow_le_exp:
  fixes t :: real
  shows "cos t ^ (2 * N) \<le> exp (- ((sqrt (real N) * sin t)\<^sup>2))"
proof -
  have c2: "(cos t)\<^sup>2 = 1 + - ((sin t)\<^sup>2)"
    by (simp add: cos_squared_eq)
  have "cos t ^ (2 * N) = ((cos t)\<^sup>2) ^ N"
    by (rule power_mult)
  also have "\<dots> \<le> exp (- ((sin t)\<^sup>2)) ^ N"
  proof (rule power_mono)
    show "(cos t)\<^sup>2 \<le> exp (- ((sin t)\<^sup>2))"
      unfolding c2 by (rule exp_ge_add_one_self)
    show "0 \<le> (cos t)\<^sup>2"
      by simp
  qed
  also have "\<dots> = exp (real N * - ((sin t)\<^sup>2))"
    by (rule exp_of_nat_mult [symmetric])
  also have "real N * - ((sin t)\<^sup>2) = - ((sqrt (real N) * sin t)\<^sup>2)"
    by (simp add: power_mult_distrib)
  finally show ?thesis .
qed

lemma gauss_int_ge_wallis: "sqrt (real N) * wallis (2 * N + 1) \<le> gauss_int (sqrt (real N))"
proof -
  let ?r = "sqrt (real N)"
  let ?g = "\<lambda>t. gauss_int (?r * sin t) - ?r * cos_int (2 * N + 1) t"
  have "?g 0 \<le> ?g (pi / 2)"
  proof (rule DERIV_nonneg_imp_nondecreasing [of 0 "pi / 2" ?g])
    show "0 \<le> pi / 2" by simp
  next
    fix t :: real
    assume t: "0 \<le> t" "t \<le> pi / 2"
    then have c: "0 \<le> cos t"
      by (intro cos_ge_zero) simp_all
    have d1: "((\<lambda>t. ?r * sin t) has_real_derivative ?r * cos t) (at t)"
      by (rule DERIV_cmult [OF DERIV_sin])
    have d2: "((\<lambda>t. gauss_int (?r * sin t)) has_real_derivative
                exp (- ((?r * sin t)\<^sup>2)) * (?r * cos t)) (at t)"
      by (rule DERIV_chain2 [OF DERIV_gauss_int d1])
    have d3: "(?g has_real_derivative
                exp (- ((?r * sin t)\<^sup>2)) * (?r * cos t) - ?r * cos t ^ (2 * N + 1)) (at t)"
      by (rule DERIV_diff [OF d2 DERIV_cmult [OF DERIV_cos_int]])
    have "exp (- ((?r * sin t)\<^sup>2)) * (?r * cos t) - ?r * cos t ^ (2 * N + 1)
            = (?r * cos t) * (exp (- ((?r * sin t)\<^sup>2)) - cos t ^ (2 * N))"
      by (simp add: algebra_simps)
    moreover have "0 \<le> (?r * cos t) * (exp (- ((?r * sin t)\<^sup>2)) - cos t ^ (2 * N))"
      using c cos_pow_le_exp [of t N] by (intro mult_nonneg_nonneg) simp_all
    ultimately have "0 \<le> exp (- ((?r * sin t)\<^sup>2)) * (?r * cos t) - ?r * cos t ^ (2 * N + 1)"
      by simp
    with d3 show "\<exists>d. (?g has_real_derivative d) (at t) \<and> 0 \<le> d"
      by blast
  qed
  then show ?thesis
    by (simp add: wallis_def)
qed

lemma erf_sqrt_sq_ge: "real N / real (N + 1) \<le> (erf (sqrt (real N)))\<^sup>2"
proof -
  have w: "0 \<le> sqrt (real N) * wallis (2 * N + 1)"
    using wallis_pos [of "2 * N + 1"] by (intro mult_nonneg_nonneg) simp_all
  have "real N * (pi / (2 * real (2 * N + 1 + 1))) \<le> real N * (wallis (2 * N + 1))\<^sup>2"
    by (intro mult_left_mono wallis_sq_lower) simp
  also have "\<dots> = (sqrt (real N) * wallis (2 * N + 1))\<^sup>2"
    by (simp add: power_mult_distrib)
  also have "\<dots> \<le> (gauss_int (sqrt (real N)))\<^sup>2"
    using gauss_int_ge_wallis [of N] w by (intro power_mono) simp_all
  also have "\<dots> = pi / 4 * (erf (sqrt (real N)))\<^sup>2"
    by (simp add: gauss_int_def power_mult_distrib power_divide)
  finally have "pi / 4 * (real N / real (N + 1)) \<le> pi / 4 * (erf (sqrt (real N)))\<^sup>2"
    by (simp add: field_simps)
  then show ?thesis
    by (rule mult_left_le_imp_le) simp
qed

lemma erf_sqrt_ge: "1 - inverse (real (Suc N)) \<le> erf (sqrt (real N))"
proof -
  let ?e = "erf (sqrt (real N))"
  have e0: "0 \<le> ?e"
    using erf_mono [of 0 "sqrt (real N)"] by simp
  have e1: "?e \<le> 1"
    by (rule erf_le_1)
  have "1 - inverse (real (Suc N)) = real N / real (N + 1)"
    by (simp add: field_simps)
  also have "\<dots> \<le> ?e\<^sup>2"
    by (rule erf_sqrt_sq_ge)
  also have "?e\<^sup>2 = ?e * ?e"
    by (rule power2_eq_square)
  also have "\<dots> \<le> ?e * 1"
    using e0 e1 by (intro mult_left_mono)
  finally show ?thesis
    by simp
qed

lemma erf_at_top: "(erf \<longlongrightarrow> 1) at_top"
proof (rule order_tendstoI)
  fix a :: real
  assume "1 < a"
  then have "erf x < a" for x
    using erf_less_1 [of x] by linarith
  then show "eventually (\<lambda>x. erf x < a) at_top"
    by simp
next
  fix a :: real
  assume a: "a < 1"
  then have "0 < 1 - a"
    by simp
  then obtain N where N: "inverse (real (Suc N)) < 1 - a"
    using reals_Archimedean by blast
  have "a < erf x" if "sqrt (real N) \<le> x" for x
  proof -
    have "a < 1 - inverse (real (Suc N))"
      using N by linarith
    also have "\<dots> \<le> erf (sqrt (real N))"
      by (rule erf_sqrt_ge)
    also have "\<dots> \<le> erf x"
      using that by (rule erf_mono)
    finally show ?thesis .
  qed
  then show "eventually (\<lambda>x. a < erf x) at_top"
    unfolding eventually_at_top_linorder by blast
qed

lemma erf_at_bot: "(erf \<longlongrightarrow> - 1) at_bot"
proof -
  have "((\<lambda>x. - erf x) \<longlongrightarrow> - 1) at_top"
    by (intro tendsto_minus erf_at_top)
  then have "((\<lambda>x. erf (- x)) \<longlongrightarrow> - 1) at_top"
    by (simp only: erf_minus)
  then show ?thesis
    by (simp only: filterlim_at_bot_mirror)
qed

section \<open>Properties of the probability of improvement\<close>

lemma probability_improvement_value:
  assumes "sigma \<noteq> 0"
  shows "probability_improvement mean sigma baseline
           = Inr (0.5 * (1 + erf ((mean - baseline) / (sigma * sqrt 2))))"
  using assms by (simp add: probability_improvement_def py_div_def)

lemma DERIV_improvement:
  assumes "0 < sigma"
  shows "((\<lambda>b. 0.5 * (1 + erf ((mean - b) / (sigma * sqrt 2))))
            has_real_derivative - normal_density mean sigma b) (at b)"
proof -
  let ?c = "sigma * sqrt 2"
  let ?z = "(mean - b) / ?c"
  have c: "0 < ?c"
    using assms by simp
  have d0: "((\<lambda>b. mean - b) has_real_derivative 0 - 1) (at b)"
    by (rule DERIV_diff [OF DERIV_const DERIV_ident])
  have d1: "((\<lambda>b. (mean - b) / ?c) has_real_derivative (0 - 1) / ?c) (at b)"
    by (rule DERIV_cdivide [OF d0])
  have d2: "((\<lambda>b. erf ((mean - b) / ?c)) has_real_derivative
              2 / sqrt pi * exp (- (?z\<^sup>2)) * ((0 - 1) / ?c)) (at b)"
    by (rule DERIV_chain2 [OF DERIV_erf d1])
  have d3: "((\<lambda>b. 0.5 * (1 + erf ((mean - b) / ?c))) has_real_derivative
              0.5 * (0 + 2 / sqrt pi * exp (- (?z\<^sup>2)) * ((0 - 1) / ?c))) (at b)"
    by (rule DERIV_cmult [OF DERIV_add [OF DERIV_const d2]])
  have z2: "?z\<^sup>2 = (b - mean)\<^sup>2 / (2 * sigma\<^sup>2)"
    by (simp add: power_divide power_mult_distrib power2_commute [of mean b])
  have "0.5 * (0 + 2 / sqrt pi * exp (- (?z\<^sup>2)) * ((0 - 1) / ?c))
          = - (1 / (sigma * (sqrt 2 * sqrt pi)) * exp (- (?z\<^sup>2)))"
    by (simp add: field_simps)
  also have "\<dots> = - normal_density mean sigma b"
    unfolding z2 normal_density_def by (simp only: real_sqrt_mult)
  finally show ?thesis
    using d3 by simp
qed

lemma arg_at_bot:
  fixes c mean :: real
  assumes "0 < c"
  shows "filterlim (\<lambda>b. (mean - b) / c) at_bot at_top"
  unfolding filterlim_at_bot
proof
  fix Z :: real
  have "(mean - b) / c \<le> Z" if "mean - Z * c \<le> b" for b
    using that assms by (simp add: field_simps)
  then show "eventually (\<lambda>b. (mean - b) / c \<le> Z) at_top"
    unfolding eventually_at_top_linorder by blast
qed

lemma arg_at_top:
  fixes c mean :: real
  assumes "0 < c"
  shows "filterlim (\<lambda>b. (mean - b) / c) at_top at_bot"
  unfolding filterlim_at_top
proof
  fix Z :: real
  have "Z \<le> (mean - b) / c" if "b \<le> mean - Z * c" for b
    using that assms by (simp add: field_simps)
  then show "eventually (\<lambda>b. Z \<le> (mean - b) / c) at_bot"
    unfolding eventually_at_bot_linorder by blast
qed

lemma improvement_at_top:
  assumes "0 < sigma"
  shows "((\<lambda>b. 0.5 * (1 + erf ((mean - b) / (sigma * sqrt 2)))) \<longlongrightarrow> 0) at_top"
proof -
  have c: "0 < sigma * sqrt 2"
    using assms by simp
  have "((\<lambda>b. erf ((mean - b) / (sigma * sqrt 2))) \<longlongrightarrow> - 1) at_top"
    by (rule filterlim_compose [OF erf_at_bot arg_at_bot [OF c]])
  then have "((\<lambda>b. 0.5 * (1 + erf ((mean - b) / (sigma * sqrt 2)))) \<longlongrightarrow> 0.5 * (1 + - 1)) at_top"
    by (intro tendsto_mult tendsto_add tendsto_const)
  then show ?thesis
    by simp
qed

lemma improvement_at_bot:
  assumes "0 < sigma"
  shows "((\<lambda>b. 0.5 * (1 + erf ((mean - b) / (sigma * sqrt 2)))) \<longlongrightarrow> 1) at_bot"
proof -
  have c: "0 < sigma * sqrt 2"
    using assms by simp
  have "((\<lambda>b. erf ((mean - b) / (sigma * sqrt 2))) \<longlongrightarrow> 1) at_bot"
    by (rule filterlim_compose [OF erf_at_top arg_at_top [OF c]])
  then have "((\<lambda>b. 0.5 * (1 + erf ((mean - b) / (sigma * sqrt 2)))) \<longlongrightarrow> 0.5 * (1 + 1)) at_bot"
    by (intro tendsto_mult tendsto_add tendsto_const)
  then show ?thesis
    by simp
qed

lemma improvement_is_upper_tail:
  assumes "0 < sigma"
  shows "normal_upper_tail mean sigma (\<lambda>b. 0.5 * (1 + erf ((mean - b) / (sigma * sqrt 2))))"
  unfolding normal_upper_tail_def
  using DERIV_improvement [OF assms] improvement_at_top [OF assms] improvement_at_bot [OF assms]
  by blast

lemma normal_upper_tail_unique:
  assumes F: "normal_upper_tail mean sigma F" and G: "normal_upper_tail mean sigma G"
  shows "F = G"
proof (rule ext)
  fix b
  let ?D = "\<lambda>x. F x - G x"
  have der: "\<forall>x. (?D has_real_derivative 0) (at x)"
  proof
    fix x
    have dF: "(F has_real_derivative - normal_density mean sigma x) (at x)"
      using F unfolding normal_upper_tail_def by blast
    have dG: "(G has_real_derivative - normal_density mean sigma x) (at x)"
      using G unfolding normal_upper_tail_def by blast
    have "(?D has_real_derivative - normal_density mean sigma x - - normal_density mean sigma x) (at x)"
      by (rule DERIV_diff [OF dF dG])
    then show "(?D has_real_derivative 0) (at x)"
      by simp
  qed
  have const: "?D x = ?D b" for x
    using DERIV_isconst_all [OF der] by blast
  have lF: "(F \<longlongrightarrow> 0) at_top"
    using F unfolding normal_upper_tail_def by blast
  have lG: "(G \<longlongrightarrow> 0) at_top"
    using G unfolding normal_upper_tail_def by blast
  have eq: "?D = (\<lambda>x. F b - G b)"
    by (rule ext) (rule const)
  have "(?D \<longlongrightarrow> 0 - 0) at_top"
    by (rule tendsto_diff [OF lF lG])
  then have "((\<lambda>x::real. F b - G b) \<longlongrightarrow> 0) at_top"
    by (simp only: eq diff_zero)
  then have "F b - G b = 0"
    by (simp only: tendsto_const_iff trivial_limit_at_top_linorder simp_thms)
  then show "F b = G b"
    by simp
qed

section \<open>The claims\<close>

text \<open>
  C1. For all real inputs with \<open>n1 + n2 \<noteq> 0\<close>, \<open>enthalpy_of_formation\<close> returns
  \<open>(energy - n1 * energy_1_ref - n2 * energy_2_ref) / (n1 + n2)\<close>.
\<close>
theorem enthalpy_of_formation_formula:
  assumes "n1 + n2 \<noteq> 0"
  shows "enthalpy_of_formation energy n1 n2 energy_1_ref energy_2_ref
           = Inr ((energy - n1 * energy_1_ref - n2 * energy_2_ref) / (n1 + n2))"
  using assms by (simp add: enthalpy_of_formation_def py_div_def)

theorem enthalpy_of_formation_formula_witness:
  "(4::real) + 1 \<noteq> 0 \<and> enthalpy_of_formation (- 20) 4 1 (- 3) (- 4) = Inr (- (4 / 5))"
  using enthalpy_of_formation_formula [of 4 1 "- 20" "- 3" "- 4"] by simp

text \<open>
  C2. For all real \<open>mean\<close> and \<open>baseline\<close> and every \<open>sigma > 0\<close>,
  \<open>probability_improvement\<close> returns \<open>0.5 * (1 + erf ((mean - baseline) / (sigma * sqrt 2)))\<close>,
  and this is the probability that a normal random variable with that mean and standard
  deviation exceeds the baseline: as a function of the baseline, the returned value is the
  upper tail of that normal distribution.
\<close>
theorem probability_improvement_formula:
  assumes "0 < sigma"
  shows "probability_improvement mean sigma baseline
           = Inr (0.5 * (1 + erf ((mean - baseline) / (sigma * sqrt 2))))
         \<and> (\<exists>F. normal_upper_tail mean sigma F
                \<and> (\<forall>b. probability_improvement mean sigma b = Inr (F b)))"
proof
  from assms have nz: "sigma \<noteq> 0"
    by simp
  show "probability_improvement mean sigma baseline
          = Inr (0.5 * (1 + erf ((mean - baseline) / (sigma * sqrt 2))))"
    using nz by (rule probability_improvement_value)
  let ?F = "\<lambda>b. 0.5 * (1 + erf ((mean - b) / (sigma * sqrt 2)))"
  have "normal_upper_tail mean sigma ?F"
    using assms by (rule improvement_is_upper_tail)
  moreover have "\<forall>b. probability_improvement mean sigma b = Inr (?F b)"
    using nz by (simp add: probability_improvement_value)
  ultimately show "\<exists>F. normal_upper_tail mean sigma F
                     \<and> (\<forall>b. probability_improvement mean sigma b = Inr (F b))"
    by blast
qed

theorem probability_improvement_formula_witness:
  "(0::real) < 1 \<and>
   probability_improvement 2 1 2 = Inr (0.5 * (1 + erf ((2 - 2) / (1 * sqrt 2)))) \<and>
   (\<exists>F. normal_upper_tail 2 1 F \<and> (\<forall>b. probability_improvement 2 1 b = Inr (F b)))"
proof -
  have h: "(0::real) < 1"
    by simp
  from probability_improvement_formula [OF h, of 2 2] h show ?thesis
    by (intro conjI) blast+
qed

text \<open>
  C3, as amended.  For every formula \<open>Al{a}Cu{b}\<close> where \<open>a\<close> and \<open>b\<close> are runs of decimal
  digits (non-negative integer literals), each possibly empty, \<open>get_stoich\<close> returns
  (\<open>a\<close> or 1, \<open>b\<close> or 1) as real numbers.  Decimal literals are not parsed: a decimal point
  after the digits of the first count makes the match fail, and the result is \<open>(0, 0)\<close>.
\<close>
theorem get_stoich_integer_counts:
  assumes "digits a" and "digits b"
  shows "get_stoich (''Al'' @ a @ ''Cu'' @ b) = Inr (count_of a, count_of b)
         \<and> get_stoich (''Al'' @ a @ ''.'' @ rest) = Inr (0, 0)"
proof
  show "get_stoich (''Al'' @ a @ ''Cu'' @ b) = Inr (count_of a, count_of b)"
    using get_stoich_shape [OF assms, of "[]"] by simp
  have "dropWhile is_digit (a @ ''.'' @ rest) = ''.'' @ rest"
    using assms(1) by (simp add: dropWhile_digits_append is_digit_def)
  then have "re_match_AlCu (''Al'' @ a @ ''.'' @ rest) = None"
    by (simp add: re_match_AlCu_def)
  then show "get_stoich (''Al'' @ a @ ''.'' @ rest) = Inr (0, 0)"
    by (rule get_stoich_no_match)
qed

theorem get_stoich_integer_counts_witness:
  "digits ''12'' \<and> digits '''' \<and> get_stoich (''Al'' @ ''12'' @ ''Cu'' @ '''') = Inr (12, 1)
   \<and> get_stoich (''Al'' @ ''12'' @ ''.'' @ ''5Cu'') = Inr (0, 0)"
proof -
  have h1: "digits ''12''" and h2: "digits ''''"
    by (simp_all add: digits_def is_digit_def)
  have c: "count_of ''12'' = 12" "count_of '''' = 1"
    by (simp_all add: count_of_def decimal_val_def digit_val_def)
  from get_stoich_integer_counts [OF h1 h2, of "''5Cu''"] h1 h2 show ?thesis
    unfolding c by blast
qed

theorem get_stoich_decimal_counterexample:
  "get_stoich ''Al0.98Cu0.02'' = Inr (0, 0) \<and> get_stoich ''Al0.98Cu0.02'' \<noteq> Inr (0.98, 0.02)"
  by (simp add: parser_defs)

text \<open>
  C4. For every string whose start does not match the pattern \<open>Al[count]Cu[count]\<close>,
  \<open>get_stoich\<close> returns \<open>(0, 0)\<close> and raises no fault.  The pattern is taken with counts
  that are runs of digits, the widest set of unmatched strings: a string that does not
  match a pattern with more forms of count does not match this one either.
\<close>
theorem get_stoich_unmatched:
  assumes "\<not> matches_at_start s"
  shows "get_stoich s = Inr (0, 0)"
proof -
  from assms have "re_match_AlCu s = None"
    using matches_at_start_iff [of s] by blast
  then show ?thesis
    by (rule get_stoich_no_match)
qed

theorem get_stoich_unmatched_witness:
  "\<not> matches_at_start ''Fe2O3'' \<and> get_stoich ''Fe2O3'' = Inr (0, 0)
   \<and> \<not> matches_at_start '''' \<and> get_stoich '''' = Inr (0, 0)"
proof -
  have h1: "\<not> matches_at_start ''Fe2O3''" and h2: "\<not> matches_at_start ''''"
    by (simp_all add: matches_at_start_iff re_match_AlCu_def)
  from get_stoich_unmatched [OF h1] get_stoich_unmatched [OF h2] h1 h2 show ?thesis
    by blast
qed

text \<open>
  C5. When \<open>n1 + n2\<close> is zero, \<open>enthalpy_of_formation\<close> ends in the division-by-zero fault,
  and so does \<open>probability_improvement\<close> when \<open>sigma\<close> is zero; neither catches it, so the
  fault is what the caller receives.
\<close>
theorem division_by_zero_propagates:
  "(n1 + n2 = 0 \<longrightarrow>
      enthalpy_of_formation energy n1 n2 energy_1_ref energy_2_ref = Inl ZeroDivisionError)
   \<and> probability_improvement mean 0 baseline = Inl ZeroDivisionError"
  by (simp add: enthalpy_of_formation_def probability_improvement_def py_div_def)

theorem division_by_zero_propagates_witness:
  "(0::real) + 0 = 0
   \<and> enthalpy_of_formation (- 15) 0 0 (- 3) (- 4) = Inl ZeroDivisionError
   \<and> probability_improvement 0.3 0 0.424 = Inl ZeroDivisionError"
  using division_by_zero_propagates [of 0 0 "- 15" "- 3" "- 4" "0.3" "0.424"] by simp

text \<open>
  C6. For every real \<open>mean\<close> and \<open>baseline\<close> and every \<open>sigma > 0\<close>,
  \<open>probability_improvement\<close> returns a value in the closed interval from 0 to 1.
\<close>
theorem probability_improvement_range:
  assumes "0 < sigma"
  shows "\<exists>p. probability_improvement mean sigma baseline = Inr p \<and> 0 \<le> p \<and> p \<le> 1"
proof -
  let ?z = "(mean - baseline) / (sigma * sqrt 2)"
  from assms have "probability_improvement mean sigma baseline = Inr (0.5 * (1 + erf ?z))"
    by (intro probability_improvement_value) simp
  moreover have "0 \<le> 0.5 * (1 + erf ?z)"
    using erf_greater_minus_1 [of ?z] by simp
  moreover have "0.5 * (1 + erf ?z) \<le> 1"
    using erf_le_1 [of ?z] by simp
  ultimately show ?thesis
    by blast
qed

theorem probability_improvement_range_witness:
  "(0::real) < 0.13
   \<and> (\<exists>p. probability_improvement 0.3 0.13 0.424 = Inr p \<and> 0 \<le> p \<and> p \<le> 1)"
proof -
  have h: "(0::real) < 0.13"
    by simp
  from probability_improvement_range [OF h, of "0.3" "0.424"] h show ?thesis
    by blast
qed

text \<open>
  C7. For fixed \<open>sigma > 0\<close>, \<open>probability_improvement\<close> is increasing in \<open>mean\<close> for a
  fixed baseline and decreasing in \<open>baseline\<close> for a fixed mean: a larger mean never gives
  a smaller value, a larger baseline never a larger one, and over the real numbers both
  are strict.
\<close>
theorem probability_improvement_monotone:
  assumes "0 < sigma"
  shows "\<exists>p1 p2 q1 q2.
           probability_improvement m1 sigma baseline = Inr p1
           \<and> probability_improvement m2 sigma baseline = Inr p2
           \<and> (m1 \<le> m2 \<longrightarrow> p1 \<le> p2) \<and> (m1 < m2 \<longrightarrow> p1 < p2)
           \<and> probability_improvement mean sigma b1 = Inr q1
           \<and> probability_improvement mean sigma b2 = Inr q2
           \<and> (b1 \<le> b2 \<longrightarrow> q2 \<le> q1) \<and> (b1 < b2 \<longrightarrow> q2 < q1)"
proof -
  let ?c = "sigma * sqrt 2"
  let ?v = "\<lambda>m b. 0.5 * (1 + erf ((m - b) / ?c))"
  have c: "0 < ?c"
    using assms by simp
  have val: "probability_improvement m sigma b = Inr (?v m b)" for m b
    using assms by (intro probability_improvement_value) simp
  have le: "?v m b \<le> ?v m' b'" if "m - b \<le> m' - b'" for m b m' b'
  proof -
    have "(m - b) / ?c \<le> (m' - b') / ?c"
      using that c by (simp add: divide_right_mono)
    then have "erf ((m - b) / ?c) \<le> erf ((m' - b') / ?c)"
      by (rule erf_mono)
    then show ?thesis
      by simp
  qed
  have less: "?v m b < ?v m' b'" if "m - b < m' - b'" for m b m' b'
  proof -
    have "(m - b) / ?c < (m' - b') / ?c"
      using that c by (simp add: divide_strict_right_mono)
    then have "erf ((m - b) / ?c) < erf ((m' - b') / ?c)"
      by (rule erf_strict_mono)
    then show ?thesis
      by simp
  qed
  have "(m1 \<le> m2 \<longrightarrow> ?v m1 baseline \<le> ?v m2 baseline)"
    using le [of m1 baseline m2 baseline] by simp
  moreover have "(m1 < m2 \<longrightarrow> ?v m1 baseline < ?v m2 baseline)"
    using less [of m1 baseline m2 baseline] by simp
  moreover have "(b1 \<le> b2 \<longrightarrow> ?v mean b2 \<le> ?v mean b1)"
    using le [of mean b2 mean b1] by simp
  moreover have "(b1 < b2 \<longrightarrow> ?v mean b2 < ?v mean b1)"
    using less [of mean b2 mean b1] by simp
  ultimately show ?thesis
    using val by blast
qed

theorem probability_improvement_monotone_witness:
  "(0::real) < 1
   \<and> (\<exists>p1 p2 q1 q2.
           probability_improvement 0 1 5 = Inr p1
           \<and> probability_improvement 2 1 5 = Inr p2
           \<and> ((0::real) \<le> 2 \<longrightarrow> p1 \<le> p2) \<and> ((0::real) < 2 \<longrightarrow> p1 < p2)
           \<and> probability_improvement 3 1 4 = Inr q1
           \<and> probability_improvement 3 1 6 = Inr q2
           \<and> ((4::real) \<le> 6 \<longrightarrow> q2 \<le> q1) \<and> ((4::real) < 6 \<longrightarrow> q2 < q1))"
proof -
  have h: "(0::real) < 1"
    by simp
  from probability_improvement_monotone [OF h, of 0 5 2 3 4 6] h show ?thesis
    by (intro conjI) assumption+
qed

text \<open>
  C8. A count omitted after a matched element symbol defaults to 1:
  \<open>get_stoich "Al4Cu1"\<close> is \<open>(4.0, 1.0)\<close> and \<open>get_stoich "AlCu"\<close> is \<open>(1.0, 1.0)\<close>; and with
  only one of the two counts written, the other one is 1.
\<close>
theorem get_stoich_default_one:
  "get_stoich ''Al4Cu1'' = Inr (4, 1) \<and> get_stoich ''AlCu'' = Inr (1, 1)
   \<and> (digits b \<longrightarrow> get_stoich (''AlCu'' @ b) = Inr (1, count_of b))
   \<and> (digits a \<longrightarrow> get_stoich (''Al'' @ a @ ''Cu'') = Inr (count_of a, 1))"
proof (intro conjI impI)
  show "get_stoich ''Al4Cu1'' = Inr (4, 1)"
    by (simp add: parser_defs)
  show "get_stoich ''AlCu'' = Inr (1, 1)"
    by (simp add: parser_defs)
  have e: "digits ''''"
    by (simp add: digits_def)
  show "get_stoich (''AlCu'' @ b) = Inr (1, count_of b)" if "digits b"
    using get_stoich_shape [OF e that, of "[]"] by (simp add: count_of_def)
  show "get_stoich (''Al'' @ a @ ''Cu'') = Inr (count_of a, 1)" if "digits a"
    using get_stoich_shape [OF that e, of "[]"] by (simp add: count_of_def)
qed

theorem get_stoich_default_one_witness:
  "get_stoich ''Al4Cu1'' = Inr (4, 1) \<and> get_stoich ''AlCu'' = Inr (1, 1)
   \<and> digits ''3'' \<and> get_stoich (''AlCu'' @ ''3'') = Inr (1, 3)
   \<and> digits ''70'' \<and> get_stoich (''Al'' @ ''70'' @ ''Cu'') = Inr (70, 1)"
proof -
  have h1: "digits ''3''" and h2: "digits ''70''"
    by (simp_all add: digits_def is_digit_def)
  have c: "count_of ''3'' = 3" "count_of ''70'' = 70"
    by (simp_all add: count_of_def decimal_val_def digit_val_def)
  from get_stoich_default_one [of "''3''" "''70''"] h1 h2 show ?thesis
    unfolding c by blast
qed

text \<open>
  C9. \<open>get_stoich\<close> matches a prefix of its input.  On a string that begins with
  \<open>Al[digits]Cu[digits]\<close> and goes on with any text, it returns the counts of the matched
  prefix, whatever follows: the second run of digits extends over the digits that the
  following text begins with, the rest is ignored, and where that text does not begin
  with a digit the result is that of the prefix alone.
\<close>
theorem get_stoich_prefix:
  assumes "digits a" and "digits b"
  shows "get_stoich (''Al'' @ a @ ''Cu'' @ b @ rest)
           = Inr (count_of a, count_of (b @ takeWhile is_digit rest))
         \<and> get_stoich (''Al'' @ a @ ''Cu'' @ b @ rest)
           = get_stoich (''Al'' @ a @ ''Cu'' @ b @ takeWhile is_digit rest)
         \<and> (takeWhile is_digit rest = [] \<longrightarrow>
              get_stoich (''Al'' @ a @ ''Cu'' @ b @ rest) = Inr (count_of a, count_of b))"
proof (intro conjI impI)
  show g: "get_stoich (''Al'' @ a @ ''Cu'' @ b @ rest)
           = Inr (count_of a, count_of (b @ takeWhile is_digit rest))"
    using assms by (rule get_stoich_shape)
  have "digits (b @ takeWhile is_digit rest)"
    using assms(2) by simp
  from get_stoich_shape [OF assms(1) this, of "[]"]
  show "get_stoich (''Al'' @ a @ ''Cu'' @ b @ rest)
           = get_stoich (''Al'' @ a @ ''Cu'' @ b @ takeWhile is_digit rest)"
    using g by simp
  show "get_stoich (''Al'' @ a @ ''Cu'' @ b @ rest) = Inr (count_of a, count_of b)"
    if "takeWhile is_digit rest = []"
    using g that by simp
qed

theorem get_stoich_prefix_witness:
  "digits '''' \<and> digits ''3'' \<and> digits ''2''
   \<and> get_stoich ''AlCuO3'' = Inr (1, 1)
   \<and> get_stoich ''Al2Cu3Fe'' = Inr (2, 3)
   \<and> get_stoich ''Al2Cu3Fe'' = get_stoich ''Al2Cu3''"
proof -
  have h0: "digits ''''" and h3: "digits ''3''" and h2: "digits ''2''"
    by (simp_all add: digits_def is_digit_def)
  have c: "count_of '''' = 1" "count_of ''3'' = 3" "count_of ''2'' = 2"
    by (simp_all add: count_of_def decimal_val_def digit_val_def)
  have t: "takeWhile is_digit ''O3'' = []" "takeWhile is_digit ''Fe'' = []"
    by (simp_all add: is_digit_def)
  from get_stoich_prefix [OF h0 h0, of "''O3''"] t(1)
  have "get_stoich (''Al'' @ [] @ ''Cu'' @ [] @ ''O3'') = Inr (count_of [], count_of [])"
    by blast
  then have r1: "get_stoich ''AlCuO3'' = Inr (1, 1)"
    by (simp add: c)
  from get_stoich_prefix [OF h2 h3, of "''Fe''", unfolded t]
  have "get_stoich (''Al'' @ ''2'' @ ''Cu'' @ ''3'' @ ''Fe'')
          = Inr (count_of ''2'', count_of ''3'')"
    and "get_stoich (''Al'' @ ''2'' @ ''Cu'' @ ''3'' @ ''Fe'')
          = get_stoich (''Al'' @ ''2'' @ ''Cu'' @ ''3'' @ [])"
    by blast+
  then have r2: "get_stoich ''Al2Cu3Fe'' = Inr (2, 3)"
    and r3: "get_stoich ''Al2Cu3Fe'' = get_stoich ''Al2Cu3''"
    by (simp_all add: c)
  from h0 h3 h2 r1 r2 r3 show ?thesis
    by blast
qed

text \<open>
  C10. A formula with both counts written as 0 is matched, not rejected:
  \<open>get_stoich "Al0Cu0"\<close> is \<open>(0.0, 0.0)\<close>, the value also returned when nothing matches, so
  the result \<open>(0, 0)\<close> does not tell the two apart; the demonstration loop skips both
  records and does not call \<open>enthalpy_of_formation\<close> for them.
\<close>
theorem get_stoich_zero_counts:
  "re_match_AlCu ''Al0Cu0'' = Some (''0'', ''0'') \<and> get_stoich ''Al0Cu0'' = Inr (0, 0)
   \<and> re_match_AlCu ''Fe2O3'' = None \<and> get_stoich ''Fe2O3'' = Inr (0, 0)
   \<and> loop_body energy_Al energy_Cu points \<lparr>chemical_formula = ''Al0Cu0'', total_energy = e1\<rparr>
        = Inr points
   \<and> loop_body energy_Al energy_Cu points \<lparr>chemical_formula = ''Fe2O3'', total_energy = e2\<rparr>
        = Inr points
   \<and> AlCu_points energy_Al energy_Cu
        [\<lparr>chemical_formula = ''Al0Cu0'', total_energy = e1\<rparr>,
         \<lparr>chemical_formula = ''Fe2O3'', total_energy = e2\<rparr>] = Inr [(0, 0), (1, 0)]
   \<and> enthalpy_of_formation e1 0 0 energy_Al energy_Cu = Inl ZeroDivisionError"
proof -
  have m1: "re_match_AlCu ''Al0Cu0'' = Some (''0'', ''0'')"
    by (simp add: re_match_AlCu_def is_digit_def)
  have m2: "re_match_AlCu ''Fe2O3'' = None"
    by (simp add: re_match_AlCu_def)
  have g1: "get_stoich ''Al0Cu0'' = Inr (0, 0)"
    by (simp add: parser_defs)
  have g2: "get_stoich ''Fe2O3'' = Inr (0, 0)"
    using m2 by (rule get_stoich_no_match)
  have l1: "loop_body energy_Al energy_Cu ps \<lparr>chemical_formula = ''Al0Cu0'', total_energy = e1\<rparr>
              = Inr ps" for ps
    by (simp add: loop_body_def g1)
  have l2: "loop_body energy_Al energy_Cu ps \<lparr>chemical_formula = ''Fe2O3'', total_energy = e2\<rparr>
              = Inr ps" for ps
    by (simp add: loop_body_def g2)
  have a: "AlCu_points energy_Al energy_Cu
        [\<lparr>chemical_formula = ''Al0Cu0'', total_energy = e1\<rparr>,
         \<lparr>chemical_formula = ''Fe2O3'', total_energy = e2\<rparr>] = Inr [(0, 0), (1, 0)]"
    by (simp add: AlCu_points_def l1 l2)
  have z: "enthalpy_of_formation e1 0 0 energy_Al energy_Cu = Inl ZeroDivisionError"
    by (simp add: enthalpy_of_formation_def py_div_def)
  from m1 g1 m2 g2 l1 l2 a z show ?thesis
    by blast
qed

end
